theory Spec2Isabelle
  imports Main "HOL-Library.Word"
begin

unbundle bit_operations_syntax

section \<open>The USB-dongle port of the transport layer\<close>

text \<open>
  The definitions of this section embed \<^verbatim>\<open>hal/port/unix/lt_port_unix_usb_dongle.c\<close>.
  Bytes (\<^verbatim>\<open>uint8_t\<close> and the \<^verbatim>\<open>char\<close>s of the hex strings) are 8-bit words; characters are
  given by their ASCII codes.
\<close>

type_synonym byte = "8 word"

text \<open>The values of \<^verbatim>\<open>lt_ret_t\<close> that the port returns.\<close>

datatype lt_ret_t = LT_OK | LT_FAIL | LT_L1_SPI_ERROR | LT_L1_DATA_LEN_ERROR

subsection \<open>The serial device behind the global file descriptor\<close>

text \<open>
  The port talks to one device through the global \<^verbatim>\<open>fd\<close>, with \<^verbatim>\<open>read\<close> and \<^verbatim>\<open>write\<close>.
  What the device and the kernel will answer is not decided by the program, so it is part
  of the state: \<open>rx\<close> lists the outcomes of the coming \<^verbatim>\<open>read\<close> calls (an error, or the
  bytes that are available then; no bytes available is the timeout of \<^verbatim>\<open>VTIME\<close>, and a
  silent line times out for ever), \<open>wx\<close> the outcomes of the coming \<^verbatim>\<open>write\<close> calls (an
  error, or how many bytes the device takes at most; once the list is used up every byte
  is taken). \<open>wire\<close> collects the bytes the device has taken and \<open>trace\<close> every system
  call made, with its return value.
\<close>

datatype rd_event = RdError | RdData "byte list"

datatype wr_event = WrError | WrAccept nat

datatype syscall = SysWrite "byte list" int | SysRead nat int

record port =
  rx :: "rd_event list"
  wx :: "wr_event list"
  wire :: "byte list"
  trace :: "syscall list"

text \<open>
  \<^verbatim>\<open>read(fd, buf, count)\<close>: the return value, the bytes stored at \<^verbatim>\<open>buf\<close>, the device
  afterwards. At most \<open>count\<close> bytes are delivered; what is left of a longer run of
  available bytes stays available.
\<close>

definition sys_read :: "port \<Rightarrow> nat \<Rightarrow> int \<times> byte list \<times> port" where
  "sys_read p count =
     (case rx p of
        [] \<Rightarrow> (0, [], p\<lparr>trace := trace p @ [SysRead count 0]\<rparr>)
      | RdError # es \<Rightarrow> (- 1, [], p\<lparr>rx := es, trace := trace p @ [SysRead count (- 1)]\<rparr>)
      | RdData bs # es \<Rightarrow>
          (int (length (take count bs)), take count bs,
           p\<lparr>rx := (if drop count bs = [] then es else RdData (drop count bs) # es),
             trace := trace p @ [SysRead count (int (length (take count bs)))]\<rparr>))"

text \<open>\<^verbatim>\<open>write(fd, buf, size)\<close>, \<open>buf\<close> being the \<open>size\<close> bytes handed over.\<close>

definition sys_write :: "port \<Rightarrow> byte list \<Rightarrow> int \<times> port" where
  "sys_write p buf =
     (case wx p of
        [] \<Rightarrow> (int (length buf),
               p\<lparr>wire := wire p @ buf, trace := trace p @ [SysWrite buf (int (length buf))]\<rparr>)
      | WrError # es \<Rightarrow> (- 1, p\<lparr>wx := es, trace := trace p @ [SysWrite buf (- 1)]\<rparr>)
      | WrAccept n # es \<Rightarrow>
          (int (length (take n buf)),
           p\<lparr>wx := es, wire := wire p @ take n buf,
             trace := trace p @ [SysWrite buf (int (length (take n buf)))]\<rparr>))"

subsection \<open>\<^verbatim>\<open>write_port\<close> and \<^verbatim>\<open>read_port\<close>\<close>

text \<open>
  \<^verbatim>\<open>write_port(fd, buffer, size)\<close>: 0 when \<^verbatim>\<open>write\<close> took all \<open>size\<close> bytes, otherwise -1.
  Every caller passes a buffer of at least \<open>size\<close> bytes.
\<close>

definition write_port :: "port \<Rightarrow> byte list \<Rightarrow> nat \<Rightarrow> int \<times> port" where
  "write_port p buffer size' =
     (case sys_write p (take size' buffer) of
        (result, p') \<Rightarrow> if result \<noteq> int size' then (- 1, p') else (0, p'))"

text \<open>
  The kernel stores the bytes of one \<^verbatim>\<open>read\<close> at \<^verbatim>\<open>buffer + received\<close>. The callers pass
  a buffer of at least \<open>size\<close> bytes, and \<^verbatim>\<open>read\<close> is asked for at most \<open>size - received\<close>
  bytes, so the store is inside the buffer.
\<close>

definition store_at :: "byte list \<Rightarrow> nat \<Rightarrow> byte list \<Rightarrow> byte list" where
  "store_at buffer at bs = take at buffer @ bs @ drop (at + length bs) buffer"

text \<open>
  The loop of \<^verbatim>\<open>read_port\<close>, from the value \<open>received\<close> has at the loop head. The count
  \<open>received\<close> never exceeds \<open>size\<close>, the size of an object, so its conversion to
  \<^verbatim>\<open>ssize_t\<close> at the \<^verbatim>\<open>return\<close> keeps its value.
\<close>

function read_port_loop :: "port \<Rightarrow> byte list \<Rightarrow> nat \<Rightarrow> nat \<Rightarrow> int \<times> byte list \<times> port" where
  "read_port_loop p buffer size' received =
     (if received < size' then
        (case sys_read p (size' - received) of
           (r, bs, p') \<Rightarrow>
             if r < 0 then (- 1, buffer, p')
             else if r = 0 then (int received, buffer, p')
             else read_port_loop p' (store_at buffer received bs) size' (received + nat r))
      else (int received, buffer, p))"
  by pat_completeness auto
termination
  by (relation "measure (\<lambda>(p, buffer, size', received). size' - received)") auto

definition read_port :: "port \<Rightarrow> byte list \<Rightarrow> nat \<Rightarrow> int \<times> byte list \<times> port" where
  "read_port p buffer size' = read_port_loop p buffer size' 0"

subsection \<open>Chip select\<close>

text \<open>
  \<^verbatim>\<open>lt_handle_t\<close> is declared in a header that is not among the sources; of its fields
  the port uses the L2 buffer only. Whatever else the handle holds is the extension of the
  record.
\<close>

record lt_handle_t =
  l2_buff :: "byte list"

definition lt_port_spi_csn_low :: "'a lt_handle_t_scheme \<Rightarrow> port \<Rightarrow> lt_ret_t \<times> port" where
  "lt_port_spi_csn_low h p = (LT_OK, p)"

text \<open>The array \<^verbatim>\<open>char cs_high[] = "CS=0\n"\<close> (with its terminating NUL) and the reply \<^verbatim>\<open>"OK\r\n"\<close>.\<close>

definition cs_high :: "byte list" where
  "cs_high = [0x43, 0x53, 0x3D, 0x30, 0x0A, 0x00]"

definition ok_reply :: "byte list" where
  "ok_reply = [0x4F, 0x4B, 0x0D, 0x0A]"

text \<open>
  \<^verbatim>\<open>lt_port_spi_csn_high\<close>. The local \<^verbatim>\<open>buff[4]\<close> is not initialised; it is read (by
  \<^verbatim>\<open>memcmp\<close>) only after \<^verbatim>\<open>read_port\<close> has stored all four bytes, so the zeros it starts with
  here are never looked at.
\<close>

definition lt_port_spi_csn_high :: "'a lt_handle_t_scheme \<Rightarrow> port \<Rightarrow> lt_ret_t \<times> port" where
  "lt_port_spi_csn_high h p =
     (case write_port p cs_high 5 of
        (w, p1) \<Rightarrow>
          if w \<noteq> 0 then (LT_L1_SPI_ERROR, p1)
          else
            (case read_port p1 (replicate 4 0) 4 of
               (readed, buff, p2) \<Rightarrow>
                 if readed \<noteq> 4 then (LT_L1_SPI_ERROR, p2)
                 else if take 4 buff \<noteq> take 4 ok_reply then (LT_L1_SPI_ERROR, p2)
                 else (LT_OK, p2)))"

subsection \<open>\<^verbatim>\<open>lt_port_spi_transfer\<close>\<close>

text \<open>
  C gives no meaning to an access outside an array. The model stops there with a fault
  that names the array and the index of the first access outside it, so that a result
  \<open>Inr\<close> is a call all of whose accesses were inside their arrays.
\<close>

datatype fault = L2BuffRead nat | BufferedCharsWrite nat | BufferedCharsRead nat | L2BuffWrite nat

text \<open>Stores \<open>bs\<close> into \<^verbatim>\<open>buffered_chars\<close> from index \<open>at\<close> on, one byte after the other.\<close>

definition write_chars :: "byte list \<Rightarrow> nat \<Rightarrow> byte list \<Rightarrow> fault + byte list" where
  "write_chars buffered_chars at bs =
     (if at + length bs \<le> length buffered_chars then Inr (store_at buffered_chars at bs)
      else Inl (BufferedCharsWrite (max at (length buffered_chars))))"

text \<open>\<^verbatim>\<open>sprintf(.., "%02X", b)\<close>: two upper-case hex digits and the terminating NUL.\<close>

definition hex_digit :: "nat \<Rightarrow> byte" where
  "hex_digit d = (if d < 10 then of_nat (48 + d) else of_nat (55 + d))"

definition sprintf_02X :: "byte \<Rightarrow> byte list" where
  "sprintf_02X b = [hex_digit (unat b div 16), hex_digit (unat b mod 16), 0]"

text \<open>The first loop: \<^verbatim>\<open>for (int i = 0; i < tx_data_length; i++)\<close>, from the value of \<open>i\<close> on.\<close>

function encode_loop :: "byte list \<Rightarrow> nat \<Rightarrow> nat \<Rightarrow> nat \<Rightarrow> byte list \<Rightarrow> fault + byte list" where
  "encode_loop l2 offset tx_data_length i buffered_chars =
     (if i < tx_data_length then
        (if i + offset < length l2 then
           (case write_chars buffered_chars (i * 2) (sprintf_02X (l2 ! (i + offset))) of
              Inl f \<Rightarrow> Inl f
            | Inr buffered_chars' \<Rightarrow> encode_loop l2 offset tx_data_length (i + 1) buffered_chars')
         else Inl (L2BuffRead (i + offset)))
      else Inr buffered_chars)"
  by pat_completeness auto
termination
  by (relation "measure (\<lambda>(l2, offset, tx_data_length, i, buffered_chars). tx_data_length - i)") auto

text \<open>
  \<^verbatim>\<open>sscanf(s, "%2hhx", dst)\<close>: white space is skipped; the end of the string is an input
  failure; of the next two characters at most, an optional sign and hex digits are taken;
  without a digit the match fails and nothing is stored. Where the two characters are
  the prefix \<^verbatim>\<open>0x\<close> or \<^verbatim>\<open>0X\<close>, the C library of the port's platform (glibc) converts the
  digit \<^verbatim>\<open>0\<close> and stores 0, which is what a \<^verbatim>\<open>0\<close> before any other character that is no
  hex digit gives (ISO C 7.21.6.2 would have the match fail there). The argument is what
  the array holds from \<open>s\<close> to its end; \<open>None\<close> says that the scan runs past that end.
\<close>

datatype scan = Converted byte | MatchingFailure | InputFailure

definition isspace :: "byte \<Rightarrow> bool" where
  "isspace c = (c = 0x20 \<or> 0x09 \<le> c \<and> c \<le> 0x0D)"

definition hexval :: "byte \<Rightarrow> nat option" where
  "hexval c =
     (if 0x30 \<le> c \<and> c \<le> 0x39 then Some (unat c - 48)
      else if 0x41 \<le> c \<and> c \<le> 0x46 then Some (unat c - 55)
      else if 0x61 \<le> c \<and> c \<le> 0x66 then Some (unat c - 87)
      else None)"

fun sscanf_2hhx :: "byte list \<Rightarrow> scan option" where
  "sscanf_2hhx [] = None"
| "sscanf_2hhx (c # cs) =
     (if isspace c then sscanf_2hhx cs
      else if c = 0 then Some InputFailure
      else if c = 0x2B \<or> c = 0x2D then
        (case cs of
           [] \<Rightarrow> None
         | c2 # _ \<Rightarrow>
             (case hexval c2 of
                None \<Rightarrow> Some MatchingFailure
              | Some d \<Rightarrow> Some (Converted (if c = 0x2D then - of_nat d else of_nat d))))
      else
        (case hexval c of
           None \<Rightarrow> Some MatchingFailure
         | Some d1 \<Rightarrow>
             (case cs of
                [] \<Rightarrow> None
              | c2 # _ \<Rightarrow>
                  (case hexval c2 of
                     Some d2 \<Rightarrow> Some (Converted (of_nat (16 * d1 + d2)))
                   | None \<Rightarrow> Some (Converted (of_nat d1))))))"

text \<open>
  The second loop: \<^verbatim>\<open>for (size_t count = 0; count < 2*tx_data_length; count++)\<close>, \<open>n\<close> being
  its bound \<^verbatim>\<open>2*tx_data_length\<close>. A conversion stores one byte at
  \<^verbatim>\<open>&h->l2_buff[count+offset]\<close>.
\<close>

function decode_loop :: "byte list \<Rightarrow> nat \<Rightarrow> nat \<Rightarrow> nat \<Rightarrow> byte list \<Rightarrow> fault + byte list" where
  "decode_loop buffered_chars offset n count l2 =
     (if count < n then
        (case sscanf_2hhx (drop (count * 2) buffered_chars) of
           None \<Rightarrow> Inl (BufferedCharsRead (max (count * 2) (length buffered_chars)))
         | Some (Converted b) \<Rightarrow>
             if count + offset < length l2
             then decode_loop buffered_chars offset n (count + 1) (l2[count + offset := b])
             else Inl (L2BuffWrite (count + offset))
         | Some _ \<Rightarrow> decode_loop buffered_chars offset n (count + 1) l2)
      else Inr l2)"
  by pat_completeness auto
termination
  by (relation "measure (\<lambda>(buffered_chars, offset, n, count, l2). n - count)") auto

text \<open>
  \<^verbatim>\<open>lt_port_spi_transfer\<close>. The macro \<^verbatim>\<open>LT_L1_LEN_MAX\<close> is defined in a header that is not among
  the sources and is the first argument. The sums and products of the \<^verbatim>\<open>uint8_t\<close> and
  \<^verbatim>\<open>uint16_t\<close> arguments are computed in \<^verbatim>\<open>int\<close> and never wrap. \<^verbatim>\<open>buffered_chars\<close> starts as
  512 zero bytes; \<open>bc1\<close> to \<open>bc4\<close> are its successive contents. \<^verbatim>\<open>lt_port_delay\<close> only sleeps.
  \<open>timeout\<close> is unused. On an error return the handle is as it was: only the second loop
  stores into the L2 buffer.
\<close>

definition lt_port_spi_transfer ::
    "nat \<Rightarrow> 'a lt_handle_t_scheme \<Rightarrow> 8 word \<Rightarrow> 16 word \<Rightarrow> 32 word \<Rightarrow> port
      \<Rightarrow> fault + (lt_ret_t \<times> 'a lt_handle_t_scheme \<times> port)" where
  "lt_port_spi_transfer LT_L1_LEN_MAX h offset tx_data_length timeout p =
     (if unat offset + unat tx_data_length > LT_L1_LEN_MAX then Inr (LT_L1_DATA_LEN_ERROR, h, p)
      else
        (case encode_loop (l2_buff h) (unat offset) (unat tx_data_length) 0 (replicate 512 0) of
           Inl f \<Rightarrow> Inl f
         | Inr bc1 \<Rightarrow>
        (case write_chars bc1 (unat tx_data_length * 2) [0x78] of
           Inl f \<Rightarrow> Inl f
         | Inr bc2 \<Rightarrow>
        (case write_chars bc2 (unat tx_data_length * 2 + 1) [0x0A] of
           Inl f \<Rightarrow> Inl f
         | Inr bc3 \<Rightarrow>
        (case write_port p bc3 (unat tx_data_length * 2 + 2) of
           (ret, p1) \<Rightarrow>
             if ret \<noteq> 0 then Inr (LT_L1_SPI_ERROR, h, p1)
             else
               (case read_port p1 bc3 (2 * unat tx_data_length + 2) of
                  (readed, bc4, p2) \<Rightarrow>
                    if readed \<noteq> int (2 * unat tx_data_length + 2)
                    then Inr (LT_L1_SPI_ERROR, h, p2)
                    else
                      (case decode_loop bc4 (unat offset) (2 * unat tx_data_length) 0 (l2_buff h) of
                         Inl f \<Rightarrow> Inl f
                       | Inr l2' \<Rightarrow> Inr (LT_OK, h\<lparr>l2_buff := l2'\<rparr>, p2))))))))"

subsection \<open>\<^verbatim>\<open>lt_port_random_bytes\<close>\<close>

text \<open>
  \<^verbatim>\<open>rand()\<close> belongs to the C library: a function of the library's hidden state, which it
  advances. It is the argument \<open>rand\<close>; the state is threaded through. The port never
  calls \<^verbatim>\<open>srand\<close>, so the state of a process at its first call is the library's initial one
  (that of \<^verbatim>\<open>srand(1)\<close>, ISO C 7.22.2.2). The loop stores at \<^verbatim>\<open>buff[i]\<close> for \<open>i < len\<close>; the
  caller passes at least \<open>len\<close> words.
\<close>

function random_loop :: "('s \<Rightarrow> int \<times> 's) \<Rightarrow> nat \<Rightarrow> nat \<Rightarrow> 32 word list \<Rightarrow> 's \<Rightarrow> 32 word list \<times> 's" where
  "random_loop rand len i buff s =
     (if i < len then
        (case rand s of (r, s') \<Rightarrow> random_loop rand len (i + 1) (buff[i := of_int r]) s')
      else (buff, s))"
  by pat_completeness auto
termination
  by (relation "measure (\<lambda>(rand, len, i, buff, s). len - i)") auto

definition lt_port_random_bytes ::
    "('s \<Rightarrow> int \<times> 's) \<Rightarrow> 32 word list \<Rightarrow> 16 word \<Rightarrow> 's \<Rightarrow> lt_ret_t \<times> 32 word list \<times> 's" where
  "lt_port_random_bytes rand buff len s =
     (case random_loop rand (unat len) 0 buff s of (buff', s') \<Rightarrow> (LT_OK, buff', s'))"

section \<open>The secure session, after the specification\<close>

text \<open>
  The session layer (\<^verbatim>\<open>verify_chip_and_start_secure_session\<close>, \<^verbatim>\<open>lt_ping\<close>,
  \<^verbatim>\<open>lt_session_abort\<close> and the L2/L3 code below them) is called by the example and the
  test but is not among the source files. The definitions of this section follow the
  words of the specification (sections 3, 4.2, 4.3 and 5) instead.
\<close>

text \<open>Modelled from the spec: the lifecycle states of the session handle (section 3).\<close>

datatype session_state = Uninitialized | ChannelReady | HandshakeInProgress | SecureActive | Aborted

text \<open>Modelled from the spec: the error taxonomy (section 7).\<close>

datatype session_error =
    TransportError | Timeout | IntegrityCheckFailed | PayloadTooLarge
  | AuthenticationFailed | SecureChannelViolation | NoActiveSession

text \<open>
  Modelled from the spec: the session state that the handle carries (section 3). A key
  that is absent is \<open>None\<close>. The counters are sequence values of a fixed width, 32 or 64
  bits: words of the width \<open>'w\<close>. The specification names no error for a counter at its
  last value (section 7), so \<open>incremented\<close> is the addition of that width.
\<close>

record (overloaded) 'w session_handle = lt_handle_t +
  state :: session_state
  send_key :: "byte list option"
  recv_key :: "byte list option"
  send_counter :: "'w word"
  recv_counter :: "'w word"
  pairing_slot :: "nat option"

text \<open>
  Modelled from the spec: the cryptographic primitives, which the specification leaves
  open (section 9); they are arguments. \<open>ephemeral\<close> makes the ephemeral key pair
  (private, public) from \<open>ephemeral_words\<close> random words; \<open>tag_ok\<close> checks the chip's
  authentication tag (slot, host public key, both ephemeral public keys, tag); \<open>derive\<close>
  is the key derivation (slot, host private key, ephemeral private key, both ephemeral
  public keys) giving \<open>(send_key, recv_key)\<close>; \<open>seal\<close> encrypts under a key and a counter;
  \<open>unseal\<close> verifies the tag of a frame and gives its embedded counter and plaintext.
\<close>

record (overloaded) 'w primitives =
  ephemeral_words :: nat
  ephemeral :: "32 word list \<Rightarrow> byte list \<times> byte list"
  tag_ok :: "nat \<Rightarrow> byte list \<Rightarrow> byte list \<Rightarrow> byte list \<Rightarrow> byte list \<Rightarrow> bool"
  derive :: "nat \<Rightarrow> byte list \<Rightarrow> byte list \<Rightarrow> byte list \<Rightarrow> byte list \<Rightarrow> byte list \<times> byte list"
  seal :: "byte list \<Rightarrow> 'w word \<Rightarrow> byte list \<Rightarrow> byte list"
  unseal :: "byte list \<Rightarrow> byte list \<Rightarrow> ('w word \<times> byte list) option"

text \<open>
  Modelled from the spec: the start of a handshake attempt (section 4.2, step 1, and the
  lifecycle of section 3): the handle is in \<open>HandshakeInProgress\<close> and holds the slot that
  the caller selected.
\<close>

definition handshake_begin :: "('w::len) session_handle \<Rightarrow> nat \<Rightarrow> 'w session_handle" where
  "handshake_begin h slot = h\<lparr>state := HandshakeInProgress, pairing_slot := Some slot\<rparr>"

text \<open>
  Modelled from the spec: what a failed handshake leaves (section 4.2: the handle is in
  \<open>ChannelReady\<close> and no partial session state is retained).
\<close>

definition handshake_failed :: "('w::len) session_handle \<Rightarrow> 'w session_handle" where
  "handshake_failed h =
     h\<lparr>state := ChannelReady, send_key := None, recv_key := None,
       send_counter := 0, recv_counter := 0, pairing_slot := None\<rparr>"

text \<open>
  Modelled from the spec: the handshake engine behind
  \<^verbatim>\<open>verify_chip_and_start_secure_session\<close> (section 4.2, steps 1 to 6). The random words
  of the ephemeral key pair come from \<^const>\<open>lt_port_random_bytes\<close>, the port's
  randomness. \<open>exchange\<close> is the Frame Codec with the chip behind it: for the request
  (ephemeral public key, slot) it gives an error or the chip's ephemeral public key and
  tag. The attempt runs on the handle that \<^const>\<open>handshake_begin\<close> leaves; the call is
  synchronous and returns in \<open>SecureActive\<close> or, after a failure, in \<open>ChannelReady\<close>.
\<close>

definition start_secure_session ::
    "('w::len) primitives \<Rightarrow> ('s \<Rightarrow> int \<times> 's)
      \<Rightarrow> (byte list \<times> nat \<Rightarrow> session_error + byte list \<times> byte list)
      \<Rightarrow> 'w session_handle \<Rightarrow> byte list \<Rightarrow> byte list \<Rightarrow> nat \<Rightarrow> 's
      \<Rightarrow> (session_error + unit) \<times> 'w session_handle \<times> 's" where
  "start_secure_session P rand exchange h host_private_key host_public_key slot s =
     (case lt_port_random_bytes rand (replicate (ephemeral_words P) 0)
             (of_nat (ephemeral_words P)) s of
        (ret, buff, s') \<Rightarrow>
     (case ephemeral P buff of
        (eh_private, eh_public) \<Rightarrow>
     (case exchange (eh_public, slot) of
        Inl e \<Rightarrow> (Inl e, handshake_failed (handshake_begin h slot), s')
      | Inr (chip_public, tag) \<Rightarrow>
          if \<not> tag_ok P slot host_public_key eh_public chip_public tag
          then (Inl AuthenticationFailed, handshake_failed (handshake_begin h slot), s')
          else
            (case derive P slot host_private_key eh_private eh_public chip_public of
               (sk, rk) \<Rightarrow>
                 (Inr (),
                  (handshake_begin h slot)
                    \<lparr>state := SecureActive, send_key := Some sk, recv_key := Some rk,
                     send_counter := 0, recv_counter := 0\<rparr>,
                  s')))))"




text \<open>
  Modelled from the spec: \<open>abort()\<close>, the operation behind \<^verbatim>\<open>lt_session_abort\<close> (section
  4.3): it always succeeds, wipes the keys, resets the counters and takes \<open>SecureActive\<close>
  and \<open>HandshakeInProgress\<close> to \<open>ChannelReady\<close>; no other transition is given.
\<close>

definition lt_session_abort :: "('w::len) session_handle \<Rightarrow> lt_ret_t \<times> 'w session_handle" where
  "lt_session_abort h =
     (LT_OK,
      h\<lparr>state := (if state h = SecureActive \<or> state h = HandshakeInProgress
                   then ChannelReady else state h),
        send_key := None, recv_key := None, send_counter := 0, recv_counter := 0\<rparr>)"


section \<open>Notions used in the statements\<close>

text \<open>
  The bytes that the coming \<^verbatim>\<open>read\<close> calls can deliver before the first timeout or
  error, and whether that run of bytes ends in an error.
\<close>

fun avail :: "rd_event list \<Rightarrow> byte list" where
  "avail [] = []"
| "avail (RdError # es) = []"
| "avail (RdData bs # es) = (if bs = [] then [] else bs @ avail es)"

fun ends_in_error :: "rd_event list \<Rightarrow> bool" where
  "ends_in_error [] = False"
| "ends_in_error (RdError # es) = True"
| "ends_in_error (RdData bs # es) = (if bs = [] then False else ends_in_error es)"

text \<open>The next \<^verbatim>\<open>write\<close> takes at least \<open>n\<close> bytes.\<close>

definition accepts :: "port \<Rightarrow> nat \<Rightarrow> bool" where
  "accepts p n = (case wx p of [] \<Rightarrow> True | WrError # es \<Rightarrow> False | WrAccept k # es \<Rightarrow> n \<le> k)"

text \<open>The system calls made between two states of the device.\<close>

definition calls :: "port \<Rightarrow> port \<Rightarrow> syscall list" where
  "calls p p' = drop (length (trace p)) (trace p')"

fun read_failed :: "syscall \<Rightarrow> bool" where
  "read_failed (SysRead n r) = (r < 0)"
| "read_failed (SysWrite bs r) = False"

fun read_timed_out :: "syscall \<Rightarrow> bool" where
  "read_timed_out (SysRead n r) = (r = 0)"
| "read_timed_out (SysWrite bs r) = False"


text \<open>
  An instance of the primitives with 32-bit counters, for the examples: nothing is
  encrypted, a frame is the counter (four bytes, most significant first) and the
  plaintext after it.
\<close>

definition counter_bytes :: "32 word \<Rightarrow> byte list" where
  "counter_bytes n = [ucast (drop_bit 24 n), ucast (drop_bit 16 n), ucast (drop_bit 8 n), ucast n]"

fun bytes_counter :: "byte list \<Rightarrow> (32 word \<times> byte list) option" where
  "bytes_counter (a # b # c # d # plain) =
     Some (push_bit 24 (ucast a) OR push_bit 16 (ucast b) OR push_bit 8 (ucast c) OR ucast d, plain)"
| "bytes_counter frame = None"

definition plain_primitives :: "32 primitives" where
  "plain_primitives =
     \<lparr>ephemeral_words = 2,
      ephemeral = (\<lambda>ws. (map ucast ws, map (\<lambda>w. ucast w + 1) ws)),
      tag_ok = (\<lambda>slot host_public eh_public chip_public tag. tag = [7]),
      derive = (\<lambda>slot host_private eh_private eh_public chip_public.
                  (eh_private @ chip_public, chip_public @ eh_private)),
      seal = (\<lambda>key counter plain. counter_bytes counter @ plain),
      unseal = (\<lambda>key frame. bytes_counter frame)\<rparr>"

text \<open>The characters that \<^verbatim>\<open>lt_port_spi_transfer\<close> sends for the bytes \<open>bs\<close>.\<close>

definition hex_chars :: "byte list \<Rightarrow> byte list" where
  "hex_chars bs = concat (map (\<lambda>b. [hex_digit (unat b div 16), hex_digit (unat b mod 16)]) bs)"

definition tx_chars :: "byte list \<Rightarrow> nat \<Rightarrow> nat \<Rightarrow> byte list" where
  "tx_chars l2 offset tx_data_length = hex_chars (take tx_data_length (drop offset l2)) @ [0x78, 0x0A]"

section \<open>Properties of the port\<close>

declare encode_loop.simps [simp del] decode_loop.simps [simp del] random_loop.simps [simp del]

lemma sys_read_len:
  "sys_read p count = (r, bs, p') \<Longrightarrow> r = - 1 \<and> bs = [] \<or> r = int (length bs) \<and> length bs \<le> count"
  by (auto simp: sys_read_def split: list.splits rd_event.splits)

lemma sys_read_trace:
  "sys_read p count = (r, bs, p') \<Longrightarrow> trace p' = trace p @ [SysRead count r]"
  by (auto simp: sys_read_def split: list.splits rd_event.splits)

lemma length_store_at:
  "at + length bs \<le> length buffer \<Longrightarrow> length (store_at buffer at bs) = length buffer"
  by (simp add: store_at_def)

lemma drop_store_at:
  "at + length bs \<le> n \<Longrightarrow> at + length bs \<le> length buffer \<Longrightarrow>
   drop n (store_at buffer at bs) = drop n buffer"
  by (simp add: store_at_def)

lemma read_port_loop_frame:
  "read_port_loop p buffer sz received = (n, buffer', p') \<Longrightarrow> received \<le> sz \<Longrightarrow>
   sz \<le> length buffer \<Longrightarrow>
   length buffer' = length buffer \<and>
   (n = - 1 \<or> int received \<le> n \<and> n \<le> int sz \<and> drop (nat n) buffer' = drop (nat n) buffer)"
proof (induction p buffer sz received rule: read_port_loop.induct)
  case (1 p buffer sz received)
  show ?case
  proof (cases "received < sz")
    case False
    with "1.prems" show ?thesis by simp
  next
    case True
    obtain r bs p1 where rd: "sys_read p (sz - received) = (r, bs, p1)"
      by (metis prod_cases3)
    from sys_read_len [OF rd] have len: "r = - 1 \<and> bs = [] \<or> r = int (length bs) \<and> length bs \<le> sz - received" .
    show ?thesis
    proof (cases "r < 0 \<or> r = 0")
      case True
      with \<open>received < sz\<close> rd "1.prems" show ?thesis by auto
    next
      case False
      with len have r: "r = int (length bs)" "length bs \<le> sz - received" "0 < length bs" by auto
      from False \<open>received < sz\<close> rd "1.prems"(1)
      have call: "read_port_loop p1 (store_at buffer received bs) sz (received + nat r) = (n, buffer', p')"
        by simp
      have fits: "received + length bs \<le> length buffer" using r "1.prems" by simp
      have "length buffer' = length (store_at buffer received bs) \<and>
        (n = - 1 \<or> int (received + nat r) \<le> n \<and> n \<le> int sz \<and>
          drop (nat n) buffer' = drop (nat n) (store_at buffer received bs))"
        using "1.IH" [OF \<open>received < sz\<close> rd [symmetric] refl _ _ call] False r "1.prems"
        by (simp add: length_store_at fits)
      then show ?thesis
        using r fits by (auto simp: length_store_at drop_store_at)
    qed
  qed
qed

lemma read_port_loop_trace:
  "read_port_loop p buffer sz received = (n, buffer', p') \<Longrightarrow>
   \<exists>new. trace p' = trace p @ new \<and>
     (n = - 1 \<longleftrightarrow> (\<exists>c\<in>set new. read_failed c)) \<and>
     (0 \<le> n \<and> n < int sz \<longrightarrow> (\<exists>c\<in>set new. read_timed_out c))"
proof (induction p buffer sz received rule: read_port_loop.induct)
  case (1 p buffer sz received)
  show ?case
  proof (cases "received < sz")
    case False
    with "1.prems" show ?thesis by auto
  next
    case True
    obtain r bs p1 where rd: "sys_read p (sz - received) = (r, bs, p1)"
      by (metis prod_cases3)
    note tr = sys_read_trace [OF rd]
    from sys_read_len [OF rd] have len: "r = - 1 \<or> 0 \<le> r" by auto
    consider "r < 0" | "r = 0" | "0 < r" by linarith
    then show ?thesis
    proof cases
      case 1
      with True rd "1.prems" tr len show ?thesis by auto
    next
      case 2
      with True rd "1.prems" tr show ?thesis by auto
    next
      case 3
      with True rd "1.prems"
      have call: "read_port_loop p1 (store_at buffer received bs) sz (received + nat r) = (n, buffer', p')"
        by simp
      from 3 have "\<not> r < 0" "r \<noteq> 0" by auto
      from "1.IH" [OF True rd [symmetric] refl this call]
      obtain new where new: "trace p' = trace p1 @ new"
        "n = - 1 \<longleftrightarrow> (\<exists>c\<in>set new. read_failed c)"
        "0 \<le> n \<and> n < int sz \<longrightarrow> (\<exists>c\<in>set new. read_timed_out c)" by blast
      have "trace p' = trace p @ (SysRead (sz - received) r # new)"
        using new(1) tr by simp
      moreover have "(\<exists>c\<in>set (SysRead (sz - received) r # new). read_failed c) \<longleftrightarrow> n = - 1"
        using new(2) 3 by auto
      moreover have "0 \<le> n \<and> n < int sz \<longrightarrow> (\<exists>c\<in>set (SysRead (sz - received) r # new). read_timed_out c)"
        using new(3) by auto
      ultimately show ?thesis by blast
    qed
  qed
qed

lemma store_at_Nil: "at \<le> length buffer \<Longrightarrow> store_at buffer at [] = buffer"
  by (simp add: store_at_def)

lemma store_at_append:
  "at \<le> length buffer \<Longrightarrow>
   store_at (store_at buffer at bs) (at + length bs) cs = store_at buffer at (bs @ cs)"
  by (simp add: store_at_def add.commute add.left_commute)

lemma sys_read_cases:
  "sys_read p count = (r, bs, p') \<Longrightarrow>
   wire p' = wire p \<and> wx p' = wx p \<and>
   (case rx p of
      [] \<Rightarrow> r = 0 \<and> bs = [] \<and> rx p' = []
    | RdError # es \<Rightarrow> r = - 1 \<and> bs = [] \<and> rx p' = es
    | RdData ds # es \<Rightarrow> r = int (length (take count ds)) \<and> bs = take count ds \<and>
        rx p' = (if drop count ds = [] then es else RdData (drop count ds) # es))"
  by (auto simp: sys_read_def split: list.splits rd_event.splits)

lemma read_port_loop_avail:
  "received \<le> sz \<Longrightarrow> sz \<le> length buffer \<Longrightarrow>
   \<exists>p'. read_port_loop p buffer sz received =
     (if length (take (sz - received) (avail (rx p))) = sz - received then int sz
      else if ends_in_error (rx p) then - 1
      else int (received + length (take (sz - received) (avail (rx p)))),
      store_at buffer received (take (sz - received) (avail (rx p))), p') \<and>
     wire p' = wire p \<and> wx p' = wx p"
proof (induction p buffer sz received rule: read_port_loop.induct)
  case (1 p buffer sz received)
  show ?case
  proof (cases "received < sz")
    case False
    with "1.prems" show ?thesis by (simp add: store_at_Nil)
  next
    case True
    obtain r bs p1 where rd: "sys_read p (sz - received) = (r, bs, p1)"
      by (metis prod_cases3)
    note sc = sys_read_cases [OF rd]
    show ?thesis
    proof (cases "rx p")
      case Nil
      with sc True rd "1.prems" show ?thesis by (simp add: store_at_Nil)
    next
      case (Cons e es)
      show ?thesis
      proof (cases e)
        case RdError
        with Cons sc True rd "1.prems" show ?thesis by (simp add: store_at_Nil)
      next
        case (RdData ds)
        show ?thesis
        proof (cases "ds = []")
          case True
          with RdData Cons sc \<open>received < sz\<close> rd "1.prems" show ?thesis
            by (simp add: store_at_Nil)
        next
          case False
          let ?count = "sz - received"
          from RdData Cons sc have r: "r = int (length (take ?count ds))" "bs = take ?count ds"
            and rx1: "rx p1 = (if drop ?count ds = [] then es else RdData (drop ?count ds) # es)"
            and same: "wire p1 = wire p" "wx p1 = wx p"
            by simp_all
          from False \<open>received < sz\<close> have pos: "0 < length bs" using r(2) by simp
          have le: "length bs \<le> ?count" using r(2) by simp
          have nz: "\<not> r < 0" "r \<noteq> 0" using pos r by auto
          have fits: "received + length bs \<le> length buffer" using le "1.prems" by simp
          have prem1: "received + nat r \<le> sz" using le r \<open>received < sz\<close> by simp
          have prem2: "sz \<le> length (store_at buffer received bs)"
            using "1.prems" fits by (simp add: length_store_at)
          from "1.IH" [OF \<open>received < sz\<close> rd [symmetric] refl nz prem1 prem2]
          obtain p' where ih: "read_port_loop p1 (store_at buffer received bs) sz (received + nat r) =
             (if length (take (sz - (received + nat r)) (avail (rx p1))) = sz - (received + nat r) then int sz
              else if ends_in_error (rx p1) then - 1
              else int (received + nat r + length (take (sz - (received + nat r)) (avail (rx p1)))),
              store_at (store_at buffer received bs) (received + nat r)
                (take (sz - (received + nat r)) (avail (rx p1))), p')"
            and same': "wire p' = wire p1" "wx p' = wx p1" by blast
          have nr: "nat r = length bs" using r by simp
          have av1: "avail (rx p1) = drop ?count ds @ avail es"
            using rx1 by simp
          have av: "avail (rx p) = ds @ avail es" using Cons RdData False by simp
          have split: "take ?count (avail (rx p)) = bs @ take (?count - length bs) (avail (rx p1))"
          proof (cases "length ds \<le> ?count")
            case True
            then show ?thesis using av av1 r(2) by simp
          next
            case False
            then show ?thesis using av av1 r(2) by simp
          qed
          have err: "ends_in_error (rx p1) = ends_in_error (rx p)"
            using rx1 Cons RdData False by simp
          have unfold: "read_port_loop p buffer sz received =
              read_port_loop p1 (store_at buffer received bs) sz (received + nat r)"
            using \<open>received < sz\<close> rd nz by simp
          have "received \<le> length buffer" using "1.prems" by simp
          then have st: "store_at (store_at buffer received bs) (received + length bs)
                (take (?count - length bs) (avail (rx p1))) =
              store_at buffer received (take ?count (avail (rx p)))"
            by (simp add: store_at_append split)
          have cnt: "sz - (received + length bs) = ?count - length bs" by simp
          let ?a1 = "take (?count - length bs) (avail (rx p1))"
          have val: "(if length ?a1 = ?count - length bs then int sz
                else if ends_in_error (rx p1) then - 1
                else int (received + length bs + length ?a1)) =
              (if length (take ?count (avail (rx p))) = ?count then int sz
                else if ends_in_error (rx p) then - 1
                else int (received + length (take ?count (avail (rx p)))))"
            unfolding split err using le by auto
          have "read_port_loop p buffer sz received =
              (if length (take ?count (avail (rx p))) = ?count then int sz
                else if ends_in_error (rx p) then - 1
                else int (received + length (take ?count (avail (rx p)))),
               store_at buffer received (take ?count (avail (rx p))), p')"
            using ih unfolding unfold nr cnt st val .
          moreover have "wire p' = wire p" "wx p' = wx p" using same same' by simp_all
          ultimately show ?thesis by (intro exI [of _ p'] conjI)
        qed
      qed
    qed
  qed
qed

lemma read_port_avail:
  assumes "sz \<le> length buffer"
  shows "\<exists>p'. read_port p buffer sz =
     (if length (take sz (avail (rx p))) = sz then int sz
      else if ends_in_error (rx p) then - 1
      else int (length (take sz (avail (rx p)))),
      store_at buffer 0 (take sz (avail (rx p))), p') \<and>
     wire p' = wire p \<and> wx p' = wx p"
proof -
  have "0 \<le> sz" by simp
  from read_port_loop_avail [OF this assms, of p] show ?thesis
    by (simp only: read_port_def diff_zero add_0)
qed

lemma write_port_cases:
  "n \<le> length buffer \<Longrightarrow>
   \<exists>p'. write_port p buffer n = ((if accepts p n then 0 else - 1), p') \<and> rx p' = rx p \<and>
     (accepts p n \<longrightarrow> wire p' = wire p @ take n buffer)"
  by (auto simp: write_port_def sys_write_def accepts_def min_def
      split: list.splits wr_event.splits)

text \<open>
  Claim C7. Called with a buffer of at least \<open>size\<close> bytes, \<^verbatim>\<open>read_port\<close> returns -1 exactly
  when one of the \<^verbatim>\<open>read\<close> calls it made reported an error. Otherwise it returns a count
  \<open>n\<close> with \<open>0 \<le> n \<le> size\<close>; \<open>n < size\<close> only if one of its \<^verbatim>\<open>read\<close> calls returned 0 (the
  timeout); and the buffer is as before from index \<open>n\<close> on. The buffer keeps its length.
\<close>

theorem read_port_contract:
  assumes "size' \<le> length buffer"
    and "read_port p buffer size' = (n, buffer', p')"
  shows "(n = - 1 \<longleftrightarrow> (\<exists>c\<in>set (calls p p'). read_failed c)) \<and>
         (n \<noteq> - 1 \<longrightarrow>
            0 \<le> n \<and> n \<le> int size' \<and>
            (n < int size' \<longrightarrow> (\<exists>c\<in>set (calls p p'). read_timed_out c)) \<and>
            drop (nat n) buffer' = drop (nat n) buffer) \<and>
         length buffer' = length buffer"
proof -
  from assms(2) have loop: "read_port_loop p buffer size' 0 = (n, buffer', p')"
    by (simp add: read_port_def)
  from read_port_loop_trace [OF loop] obtain new where new:
    "trace p' = trace p @ new"
    "n = - 1 \<longleftrightarrow> (\<exists>c\<in>set new. read_failed c)"
    "0 \<le> n \<and> n < int size' \<longrightarrow> (\<exists>c\<in>set new. read_timed_out c)" by blast
  from new(1) have calls: "calls p p' = new" by (simp add: calls_def)
  from read_port_loop_frame [OF loop _ assms(1)]
  have frame: "length buffer' = length buffer"
    "n = - 1 \<or> 0 \<le> n \<and> n \<le> int size' \<and> drop (nat n) buffer' = drop (nat n) buffer"
    by auto
  show ?thesis
    using new(2,3) frame unfolding calls by auto
qed

theorem read_port_contract_witness:
  "(4::nat) \<le> length [9, 9, 9, 9 :: byte] \<and>
   read_port \<lparr>rx = [RdData [1, 2], RdData [], RdData [3]], wx = [], wire = [], trace = []\<rparr>
       [9, 9, 9, 9] 4 =
     (2, [1, 2, 9, 9],
      \<lparr>rx = [RdData [3]], wx = [], wire = [], trace = [SysRead 4 2, SysRead 2 0]\<rparr>) \<and>
   (\<exists>c\<in>set (calls \<lparr>rx = [RdData [1, 2], RdData [], RdData [3]], wx = [], wire = [], trace = []\<rparr>
               \<lparr>rx = [RdData [3]], wx = [], wire = [], trace = [SysRead 4 2, SysRead 2 0]\<rparr>).
      read_timed_out c) \<and>
   drop 2 [1, 2, 9, 9 :: byte] = drop 2 [9, 9, 9, 9]"
proof -
  have run: "read_port \<lparr>rx = [RdData [1, 2], RdData [], RdData [3]], wx = [], wire = [], trace = []\<rparr>
       [9, 9, 9, 9] 4 =
     (2, [1, 2, 9, 9],
      \<lparr>rx = [RdData [3]], wx = [], wire = [], trace = [SysRead 4 2, SysRead 2 0]\<rparr>)"
    by (simp add: read_port_def sys_read_def store_at_def)
  have len: "(4::nat) \<le> length [9, 9, 9, 9 :: byte]" by simp
  from read_port_contract [OF len run] show ?thesis
    using run by simp
qed

text \<open>
  Claim C10. \<^verbatim>\<open>lt_port_spi_csn_low\<close> returns \<^verbatim>\<open>LT_OK\<close> and leaves the device as it was (no
  system call). \<^verbatim>\<open>lt_port_spi_csn_high\<close> returns \<^verbatim>\<open>LT_OK\<close> if and only if the device takes
  all five bytes of the write and the next four bytes it delivers, before any timeout or
  error, are \<^verbatim>\<open>"OK\r\n"\<close>; the bytes it then has written are \<^verbatim>\<open>"CS=0\n"\<close>. In every other case
  it returns \<^verbatim>\<open>LT_L1_SPI_ERROR\<close>.
\<close>

theorem chip_select_contract:
  "lt_port_spi_csn_low h p = (LT_OK, p) \<and>
   (fst (lt_port_spi_csn_high h p) = LT_OK \<longleftrightarrow>
      accepts p 5 \<and> take 4 (avail (rx p)) = [0x4F, 0x4B, 0x0D, 0x0A]) \<and>
   (fst (lt_port_spi_csn_high h p) = LT_OK \<longrightarrow>
      wire (snd (lt_port_spi_csn_high h p)) = wire p @ [0x43, 0x53, 0x3D, 0x30, 0x0A]) \<and>
   (fst (lt_port_spi_csn_high h p) = LT_OK \<or> fst (lt_port_spi_csn_high h p) = LT_L1_SPI_ERROR)"
proof -
  have "5 \<le> length cs_high" by (simp add: cs_high_def)
  from write_port_cases [OF this, of p] obtain p1 where
    w: "write_port p cs_high 5 = ((if accepts p 5 then 0 else - 1), p1)"
    and rx1: "rx p1 = rx p" and wire1: "accepts p 5 \<longrightarrow> wire p1 = wire p @ take 5 cs_high"
    by blast
  have "4 \<le> length (replicate 4 (0::byte))" by simp
  from read_port_avail [OF this, of p1] obtain p2 where
    r: "read_port p1 (replicate 4 0) 4 =
      (if length (take 4 (avail (rx p1))) = 4 then 4
       else if ends_in_error (rx p1) then - 1
       else int (length (take 4 (avail (rx p1)))),
       store_at (replicate 4 0) 0 (take 4 (avail (rx p1))), p2)"
    and wire2: "wire p2 = wire p1"
    by auto
  have st: "length bs = 4 \<Longrightarrow> take 4 (store_at (replicate 4 0) 0 bs) = bs" for bs :: "byte list"
    by (simp add: store_at_def)
  have short: "length (take 4 (avail (rx p))) \<noteq> 4 \<Longrightarrow> int (length (take 4 (avail (rx p)))) \<noteq> 4"
    by simp
  have high: "lt_port_spi_csn_high h p =
    (if accepts p 5 \<and> take 4 (avail (rx p)) = ok_reply then (LT_OK, p2)
     else if accepts p 5 then (LT_L1_SPI_ERROR, p2) else (LT_L1_SPI_ERROR, p1))"
  proof (cases "accepts p 5")
    case False
    then show ?thesis by (simp add: lt_port_spi_csn_high_def w)
  next
    case True
    then have "lt_port_spi_csn_high h p =
      (case read_port p1 (replicate 4 0) 4 of
         (readed, buff, p2) \<Rightarrow>
           if readed \<noteq> 4 then (LT_L1_SPI_ERROR, p2)
           else if take 4 buff \<noteq> take 4 ok_reply then (LT_L1_SPI_ERROR, p2)
           else (LT_OK, p2))"
      by (simp add: lt_port_spi_csn_high_def w)
    also have "\<dots> = (if take 4 (avail (rx p)) = ok_reply then (LT_OK, p2) else (LT_L1_SPI_ERROR, p2))"
      unfolding r rx1
      using st [of "take 4 (avail (rx p))"] short
      by (auto simp: ok_reply_def simp del: length_take)
    finally show ?thesis using True by simp
  qed
  show ?thesis
    using wire1 wire2 unfolding high
    by (auto simp: lt_port_spi_csn_low_def ok_reply_def cs_high_def)
qed

theorem chip_select_contract_witness:
  "accepts \<lparr>rx = [RdData [0x4F, 0x4B], RdData [0x0D, 0x0A]], wx = [WrAccept 5], wire = [], trace = []\<rparr> 5 \<and>
   fst (lt_port_spi_csn_high \<lparr>l2_buff = []\<rparr>
     \<lparr>rx = [RdData [0x4F, 0x4B], RdData [0x0D, 0x0A]], wx = [WrAccept 5], wire = [], trace = []\<rparr>) = LT_OK \<and>
   wire (snd (lt_port_spi_csn_high \<lparr>l2_buff = []\<rparr>
     \<lparr>rx = [RdData [0x4F, 0x4B], RdData [0x0D, 0x0A]], wx = [WrAccept 5], wire = [], trace = []\<rparr>)) =
     [0x43, 0x53, 0x3D, 0x30, 0x0A]"
  using chip_select_contract [of "\<lparr>l2_buff = []\<rparr>"
      "\<lparr>rx = [RdData [0x4F, 0x4B], RdData [0x0D, 0x0A]], wx = [WrAccept 5], wire = [], trace = []\<rparr>"]
  by (simp add: accepts_def)

text \<open>
  Claim C5. Whenever \<open>offset + tx_data_length\<close> exceeds \<^verbatim>\<open>LT_L1_LEN_MAX\<close> (whatever value the
  macro has), \<^verbatim>\<open>lt_port_spi_transfer\<close> returns \<^verbatim>\<open>LT_L1_DATA_LEN_ERROR\<close> with the handle (and so
  its L2 buffer) and the device as they were: no system call was made, nothing was written
  or read.
\<close>

theorem spi_transfer_length_guard:
  assumes "LT_L1_LEN_MAX < unat offset + unat tx_data_length"
  shows "\<exists>h' p'. lt_port_spi_transfer LT_L1_LEN_MAX h offset tx_data_length timeout p =
           Inr (LT_L1_DATA_LEN_ERROR, h', p') \<and>
         l2_buff h' = l2_buff h \<and> h' = h \<and> calls p p' = [] \<and> wire p' = wire p \<and> p' = p"
  using assms by (simp add: lt_port_spi_transfer_def calls_def)

theorem spi_transfer_length_guard_witness:
  "(257::nat) < unat (3 :: 8 word) + unat (255 :: 16 word) \<and>
   lt_port_spi_transfer 257 \<lparr>l2_buff = replicate 257 0\<rparr> 3 255 0
       \<lparr>rx = [], wx = [], wire = [], trace = []\<rparr> =
     Inr (LT_L1_DATA_LEN_ERROR, \<lparr>l2_buff = replicate 257 0\<rparr>,
          \<lparr>rx = [], wx = [], wire = [], trace = []\<rparr>)"
proof -
  have g: "(257::nat) < unat (3 :: 8 word) + unat (255 :: 16 word)" by simp
  from spi_transfer_length_guard [OF g] show ?thesis using g by blast
qed

text \<open>Every system call leaves its entry in the trace, so no entry means no call.\<close>

lemma sys_write_trace:
  "sys_write p buf = (r, p') \<Longrightarrow> trace p' = trace p @ [SysWrite buf r]"
  by (auto simp: sys_write_def split: list.splits wr_event.splits)

lemma length_hex_chars: "length (hex_chars bs) = 2 * length bs"
  by (induction bs) (simp_all add: hex_chars_def)

lemma hex_chars_Cons:
  "hex_chars (b # bs) = hex_digit (unat b div 16) # hex_digit (unat b mod 16) # hex_chars bs"
  by (simp add: hex_chars_def)

lemma hex_chars_snoc:
  "hex_chars (bs @ [b]) = hex_chars bs @ [hex_digit (unat b div 16), hex_digit (unat b mod 16)]"
  by (simp add: hex_chars_def)

lemma drop_hex_chars: "drop (2 * k) (hex_chars bs) = hex_chars (drop k bs)"
proof (induction bs arbitrary: k)
  case Nil
  then show ?case by (simp add: hex_chars_def)
next
  case (Cons b bs)
  show ?case
  proof (cases k)
    case 0
    then show ?thesis by simp
  next
    case (Suc j)
    then show ?thesis using Cons [of j] by (simp add: hex_chars_Cons)
  qed
qed

lemma hex_digit_props:
  assumes "d < 16"
  shows "\<not> isspace (hex_digit d) \<and> hex_digit d \<noteq> 0 \<and> hex_digit d \<noteq> 0x2B \<and>
    hex_digit d \<noteq> 0x2D \<and> hexval (hex_digit d) = Some d"
proof -
  from assms have "d = 0 \<or> d = 1 \<or> d = 2 \<or> d = 3 \<or> d = 4 \<or> d = 5 \<or> d = 6 \<or> d = 7 \<or>
      d = 8 \<or> d = 9 \<or> d = 10 \<or> d = 11 \<or> d = 12 \<or> d = 13 \<or> d = 14 \<or> d = 15"
    by presburger
  then show ?thesis
    by (elim disjE) (simp_all add: hex_digit_def isspace_def hexval_def)
qed

lemma sscanf_hex_pair:
  "sscanf_2hhx (hex_digit (unat b div 16) # hex_digit (unat b mod 16) # rest) = Some (Converted b)"
proof -
  have "unat b < 256" using unsigned_less [of b, where 'a = nat] by simp
  then have hi: "unat b div 16 < 16" by simp
  have lo: "unat b mod 16 < 16" by simp
  have "of_nat (16 * (unat b div 16) + unat b mod 16) = b"
    by simp
  then show ?thesis
    using hex_digit_props [OF hi] hex_digit_props [OF lo] by simp
qed


lemma store_at_tail:
  "length H = at \<Longrightarrow> length bs \<le> length T \<Longrightarrow> store_at (H @ T) at bs = H @ bs @ drop (length bs) T"
  by (simp add: store_at_def)

lemma replicate_zero_tail:
  "3 \<le> n \<Longrightarrow> (0::byte) # replicate (n - 3) 0 = replicate (n - 2) 0"
  by (cases "n - 2") (auto simp: Suc_diff_le numeral_3_eq_3 numeral_2_eq_2)

lemma encode_loop_ok:
  assumes "len \<le> 255" "off + len \<le> length l2"
  shows "i \<le> len \<Longrightarrow>
    encode_loop l2 off len i (hex_chars (take i (drop off l2)) @ replicate (512 - 2 * i) 0) =
      Inr (hex_chars (take len (drop off l2)) @ replicate (512 - 2 * len) 0)"
proof (induction "len - i" arbitrary: i)
  case 0
  then have "i = len" by simp
  then show ?case by (simp add: encode_loop.simps)
next
  case (Suc k)
  then have lt: "i < len" by simp
  let ?H = "hex_chars (take i (drop off l2))"
  let ?b = "l2 ! (i + off)"
  have inb: "i + off < length l2" using lt assms by simp
  have len_H: "length ?H = i * 2" using lt assms by (simp add: length_hex_chars)
  have room: "3 \<le> 512 - 2 * i" using lt assms by simp
  have nth: "drop off l2 ! i = ?b" using inb by (simp add: add.commute)
  have tk: "take (Suc i) (drop off l2) = take i (drop off l2) @ [?b]"
    using inb nth by (simp add: take_Suc_conv_app_nth)
  have wr: "write_chars (?H @ replicate (512 - 2 * i) 0) (i * 2) (sprintf_02X ?b) =
      Inr (hex_chars (take (Suc i) (drop off l2)) @ replicate (512 - 2 * Suc i) 0)"
  proof -
    have "store_at (?H @ replicate (512 - 2 * i) 0) (i * 2) (sprintf_02X ?b) =
        ?H @ sprintf_02X ?b @ drop (length (sprintf_02X ?b)) (replicate (512 - 2 * i) 0)"
      using room by (intro store_at_tail len_H) (simp add: sprintf_02X_def)
    also have "\<dots> = ?H @ [hex_digit (unat ?b div 16), hex_digit (unat ?b mod 16)] @
        replicate (512 - 2 * i - 2) 0"
      using replicate_zero_tail [OF room] by (simp add: sprintf_02X_def)
    also have "\<dots> = hex_chars (take (Suc i) (drop off l2)) @ replicate (512 - 2 * Suc i) 0"
      by (simp add: tk hex_chars_snoc)
    finally show ?thesis
      using room len_H by (simp add: write_chars_def sprintf_02X_def)
  qed
  have "k = len - Suc i" using Suc.hyps by simp
  moreover have "Suc i \<le> len" using lt by simp
  ultimately have ih: "encode_loop l2 off len (i + 1)
      (hex_chars (take (Suc i) (drop off l2)) @ replicate (512 - 2 * Suc i) 0) =
      Inr (hex_chars (take len (drop off l2)) @ replicate (512 - 2 * len) 0)"
    using Suc.hyps(1) [of "Suc i"] by (simp only: Suc_eq_plus1)
  show ?case
    by (subst encode_loop.simps) (simp only: lt inb if_True wr sum.case ih)
qed

lemma encode_loop_overflow:
  assumes "256 \<le> len" "off + 256 \<le> length l2"
  shows "i \<le> 255 \<Longrightarrow> length bc = 512 \<Longrightarrow>
    encode_loop l2 off len i bc = Inl (BufferedCharsWrite 512)"
proof (induction "255 - i" arbitrary: i bc)
  case 0
  then have i: "i = 255" by simp
  show ?case
    using assms 0(3) by (subst encode_loop.simps) (simp add: i write_chars_def sprintf_02X_def)
next
  case (Suc k)
  then have lt: "i < 255" by simp
  have inb: "i + off < length l2" "i < len" using lt assms by simp_all
  have wr: "write_chars bc (i * 2) (sprintf_02X (l2 ! (i + off))) =
      Inr (store_at bc (i * 2) (sprintf_02X (l2 ! (i + off))))"
    using lt Suc.prems by (simp add: write_chars_def sprintf_02X_def)
  have len': "length (store_at bc (i * 2) (sprintf_02X (l2 ! (i + off)))) = 512"
    using lt Suc.prems by (simp add: length_store_at sprintf_02X_def)
  have "k = 255 - Suc i" using Suc.hyps by simp
  moreover have "Suc i \<le> 255" using lt by simp
  ultimately have ih: "encode_loop l2 off len (i + 1) (store_at bc (i * 2) (sprintf_02X (l2 ! (i + off)))) =
      Inl (BufferedCharsWrite 512)"
    using Suc.hyps(1) [of "Suc i", OF _ _ len'] by (simp only: Suc_eq_plus1)
  show ?case
    by (subst encode_loop.simps) (simp only: inb if_True wr sum.case ih)
qed

lemma sscanf_x: "sscanf_2hhx (0x78 # rest) = Some MatchingFailure"
  by (simp add: isspace_def hexval_def)

lemma sscanf_nul: "sscanf_2hhx (0 # rest) = Some InputFailure"
  by (simp add: isspace_def)

lemma decode_echo_step:
  assumes "len \<le> 255" "off + len \<le> length l2"
    and bc: "bc = hex_chars (take len (drop off l2)) @ [0x78, 0x0A] @ replicate (510 - 2 * len) 0"
    and lt: "count < 2 * len" and inside: "count < 256"
  shows "decode_loop bc off (2 * len) count l2 = decode_loop bc off (2 * len) (count + 1) l2"
proof -
  let ?S = "take len (drop off l2)"
  have len_S: "length ?S = len" using assms by simp
  consider "count < len" | "count = len" | "len < count" by linarith
  then show ?thesis
  proof cases
    case 1
    have inb: "count + off < length l2" using 1 assms by simp
    have "count < length ?S" using 1 len_S by simp
    then have "drop count ?S = ?S ! count # drop (Suc count) ?S"
      by (rule Cons_nth_drop_Suc [symmetric])
    moreover have "?S ! count = l2 ! (count + off)"
      using 1 inb by (simp add: add.commute)
    ultimately have "drop (count * 2) bc =
        hex_digit (unat (l2 ! (count + off)) div 16) # hex_digit (unat (l2 ! (count + off)) mod 16) #
        (hex_chars (drop (Suc count) ?S) @ [0x78, 0x0A] @ replicate (510 - 2 * len) 0)"
      using 1 len_S drop_hex_chars [of count ?S]
      by (simp add: bc length_hex_chars mult.commute hex_chars_Cons)
    then have sc: "sscanf_2hhx (drop (count * 2) bc) = Some (Converted (l2 ! (count + off)))"
      by (simp only: sscanf_hex_pair)
    have same: "l2[count + off := l2 ! (count + off)] = l2" by simp
    show ?thesis
      by (subst decode_loop.simps)
        (simp only: lt sc inb if_True option.case scan.case same)
  next
    case 2
    have "drop (count * 2) bc = 0x78 # 0x0A # replicate (510 - 2 * len) 0"
      using 2 len_S by (simp add: bc length_hex_chars mult.commute)
    then have sc: "sscanf_2hhx (drop (count * 2) bc) = Some MatchingFailure"
      by (simp only: sscanf_x)
    show ?thesis
      by (subst decode_loop.simps) (simp only: lt sc if_True option.case scan.case)
  next
    case 3
    have c: "2 * count < 512" using inside by simp
    let ?A = "hex_chars ?S @ [0x78, 0x0A]"
    have len_A: "length ?A = 2 * len + 2" using len_S by (simp add: length_hex_chars del: length_take)
    have "bc = ?A @ replicate (510 - 2 * len) 0" by (simp add: bc)
    then have "drop (count * 2) bc =
        drop (count * 2) ?A @ drop (count * 2 - length ?A) (replicate (510 - 2 * len) 0)"
      by (simp only: drop_append)
    also have "drop (count * 2) ?A = []" using 3 len_A by simp
    also have "drop (count * 2 - length ?A) (replicate (510 - 2 * len) (0::byte)) =
        replicate (512 - 2 * count) 0"
      using 3 c assms(1) unfolding len_A by simp
    finally have "drop (count * 2) bc = replicate (512 - 2 * count) 0" by simp
    moreover have "replicate (512 - 2 * count) (0::byte) = 0 # replicate (511 - 2 * count) 0"
      using c by (cases "512 - 2 * count") auto
    ultimately have sc: "sscanf_2hhx (drop (count * 2) bc) = Some InputFailure"
      by (simp only: sscanf_nul)
    show ?thesis
      by (subst decode_loop.simps) (simp only: lt sc if_True option.case scan.case)
  qed
qed

lemma decode_loop_echo:
  assumes "len \<le> 128" "off + len \<le> length l2"
    and bc: "bc = hex_chars (take len (drop off l2)) @ [0x78, 0x0A] @ replicate (510 - 2 * len) 0"
  shows "count \<le> 2 * len \<Longrightarrow> decode_loop bc off (2 * len) count l2 = Inr l2"
proof (induction "2 * len - count" arbitrary: count)
  case 0
  then show ?case by (subst decode_loop.simps) simp
next
  case (Suc k)
  then have lt: "count < 2 * len" by simp
  then have inside: "count < 256" using assms(1) by simp
  have le255: "len \<le> 255" using assms(1) by simp
  have "k = 2 * len - Suc count" using Suc.hyps by simp
  moreover have "Suc count \<le> 2 * len" using lt by simp
  ultimately have ih: "decode_loop bc off (2 * len) (count + 1) l2 = Inr l2"
    using Suc.hyps(1) [of "Suc count"] by (simp only: Suc_eq_plus1)
  show ?case
    unfolding decode_echo_step [OF le255 assms(2) bc lt inside] ih ..
qed

lemma decode_loop_overread:
  assumes "128 < len" "len \<le> 255" "off + len \<le> length l2"
    and bc: "bc = hex_chars (take len (drop off l2)) @ [0x78, 0x0A] @ replicate (510 - 2 * len) 0"
  shows "count \<le> 256 \<Longrightarrow> decode_loop bc off (2 * len) count l2 = Inl (BufferedCharsRead 512)"
proof (induction "256 - count" arbitrary: count)
  case 0
  then have c: "count = 256" by simp
  have "length bc = 512" using assms by (simp add: bc length_hex_chars)
  then have "drop (count * 2) bc = []" "max (count * 2) (length bc) = 512" by (simp_all add: c)
  then have sc: "sscanf_2hhx (drop (count * 2) bc) = None" by simp
  have lt: "count < 2 * len" using assms(1) c by simp
  show ?case
    by (subst decode_loop.simps)
      (simp only: lt sc if_True option.case \<open>max (count * 2) (length bc) = 512\<close>)
next
  case (Suc k)
  then have inside: "count < 256" by simp
  then have lt: "count < 2 * len" using assms(1) by simp
  have "k = 256 - Suc count" using Suc.hyps by simp
  moreover have "Suc count \<le> 256" using inside by simp
  ultimately have ih: "decode_loop bc off (2 * len) (count + 1) l2 = Inl (BufferedCharsRead 512)"
    using Suc.hyps(1) [of "Suc count"] by (simp only: Suc_eq_plus1)
  show ?case
    unfolding decode_echo_step [OF assms(2,3) bc lt inside] ih ..
qed

lemma spi_transfer_echo_decode:
  fixes h :: "'a lt_handle_t_scheme"
  assumes guard: "unat offset + unat tx_data_length \<le> LT_L1_LEN_MAX"
    and l2: "unat offset + unat tx_data_length \<le> length (l2_buff h)"
    and small: "unat tx_data_length \<le> 255"
    and acc: "accepts p (2 * unat tx_data_length + 2)"
    and echo: "take (2 * unat tx_data_length + 2) (avail (rx p)) =
      tx_chars (l2_buff h) (unat offset) (unat tx_data_length)"
  shows "\<exists>p'. lt_port_spi_transfer LT_L1_LEN_MAX h offset tx_data_length timeout p =
      (case decode_loop
              (hex_chars (take (unat tx_data_length) (drop (unat offset) (l2_buff h))) @ [0x78, 0x0A] @
                 replicate (510 - 2 * unat tx_data_length) 0)
              (unat offset) (2 * unat tx_data_length) 0 (l2_buff h) of
         Inl f \<Rightarrow> Inl f
       | Inr l2' \<Rightarrow> Inr (LT_OK, h\<lparr>l2_buff := l2'\<rparr>, p')) \<and>
    wire p' = wire p @ tx_chars (l2_buff h) (unat offset) (unat tx_data_length)"
proof -
  let ?off = "unat offset" and ?len = "unat tx_data_length"
  let ?H = "hex_chars (take ?len (drop ?off (l2_buff h)))"
  let ?bc1 = "?H @ replicate (512 - 2 * ?len) 0"
  let ?bc2 = "?H @ [0x78] @ replicate (511 - 2 * ?len) 0"
  let ?bc3 = "?H @ [0x78, 0x0A] @ replicate (510 - 2 * ?len) 0"
  have len_H: "length ?H = 2 * ?len" using l2 by (simp add: length_hex_chars)
  have g: "\<not> LT_L1_LEN_MAX < ?off + ?len" using guard by simp
  have enc: "encode_loop (l2_buff h) ?off ?len 0 (replicate 512 0) = Inr ?bc1"
    using encode_loop_ok [OF small l2, of 0] by (simp add: hex_chars_def)
  have r1: "replicate (512 - 2 * ?len) (0::byte) = 0 # replicate (511 - 2 * ?len) 0"
    using small by (cases "512 - 2 * ?len") auto
  have r2: "replicate (511 - 2 * ?len) (0::byte) = 0 # replicate (510 - 2 * ?len) 0"
    using small by (cases "511 - 2 * ?len") auto
  have w1: "write_chars ?bc1 (?len * 2) [0x78] = Inr ?bc2"
    using len_H small by (simp add: write_chars_def store_at_def r1 mult.commute)
  have w2: "write_chars ?bc2 (?len * 2 + 1) [0x0A] = Inr ?bc3"
    using len_H small by (simp add: write_chars_def store_at_def r2 mult.commute)
  have tx: "take (?len * 2 + 2) ?bc3 = tx_chars (l2_buff h) ?off ?len"
    using len_H by (simp add: tx_chars_def mult.commute)
  have len3: "length ?bc3 = 512" using len_H small by simp
  have "?len * 2 + 2 \<le> length ?bc3" using small unfolding len3 by simp
  from write_port_cases [OF this, of p] acc obtain p1 where
    wp: "write_port p ?bc3 (?len * 2 + 2) = (0, p1)" and rx1: "rx p1 = rx p"
    and wire1: "wire p1 = wire p @ tx_chars (l2_buff h) ?off ?len"
    unfolding tx by (auto simp: mult.commute)
  have "2 * ?len + 2 \<le> length ?bc3" using small unfolding len3 by simp
  from read_port_avail [OF this, of p1] obtain p2 where
    rp0: "read_port p1 ?bc3 (2 * ?len + 2) =
      (if length (take (2 * ?len + 2) (avail (rx p1))) = 2 * ?len + 2 then int (2 * ?len + 2)
       else if ends_in_error (rx p1) then - 1
       else int (length (take (2 * ?len + 2) (avail (rx p1)))),
       store_at ?bc3 0 (take (2 * ?len + 2) (avail (rx p1))), p2)"
    and wire2: "wire p2 = wire p1" by blast
  have len_tx: "length (tx_chars (l2_buff h) ?off ?len) = 2 * ?len + 2"
    using len_H by (simp add: tx_chars_def)
  have restored: "store_at ?bc3 0 (tx_chars (l2_buff h) ?off ?len) = ?bc3"
    using len_H by (simp add: store_at_def tx_chars_def)
  have rp: "read_port p1 ?bc3 (2 * ?len + 2) = (int (2 * ?len + 2), ?bc3, p2)"
    unfolding rp0 rx1 echo restored using len_tx by simp
  have "lt_port_spi_transfer LT_L1_LEN_MAX h offset tx_data_length timeout p =
      (case decode_loop ?bc3 ?off (2 * ?len) 0 (l2_buff h) of
         Inl f \<Rightarrow> Inl f
       | Inr l2' \<Rightarrow> Inr (LT_OK, h\<lparr>l2_buff := l2'\<rparr>, p2))"
    unfolding lt_port_spi_transfer_def
    by (simp only: g if_False enc sum.case w1 w2 wp prod.case rp simp_thms)
  moreover have "wire p2 = wire p @ tx_chars (l2_buff h) ?off ?len"
    using wire1 wire2 by simp
  ultimately show ?thesis by (intro exI [of _ p2] conjI)
qed

lemma spi_transfer_echo_run:
  fixes h :: "'a lt_handle_t_scheme"
  assumes guard: "unat offset + unat tx_data_length \<le> LT_L1_LEN_MAX"
    and l2: "unat offset + unat tx_data_length \<le> length (l2_buff h)"
    and small: "unat tx_data_length \<le> 128"
    and acc: "accepts p (2 * unat tx_data_length + 2)"
    and echo: "take (2 * unat tx_data_length + 2) (avail (rx p)) =
      tx_chars (l2_buff h) (unat offset) (unat tx_data_length)"
  shows "\<exists>p'. lt_port_spi_transfer LT_L1_LEN_MAX h offset tx_data_length timeout p = Inr (LT_OK, h, p') \<and>
    wire p' = wire p @ tx_chars (l2_buff h) (unat offset) (unat tx_data_length)"
proof -
  have le255: "unat tx_data_length \<le> 255" using small by simp
  have dec: "decode_loop
      (hex_chars (take (unat tx_data_length) (drop (unat offset) (l2_buff h))) @ [0x78, 0x0A] @
         replicate (510 - 2 * unat tx_data_length) 0)
      (unat offset) (2 * unat tx_data_length) 0 (l2_buff h) = Inr (l2_buff h)"
    using decode_loop_echo [OF small l2 refl, of 0] by simp
  from spi_transfer_echo_decode [OF guard l2 le255 acc echo, of timeout]
  show ?thesis unfolding dec by simp
qed

text \<open>
  Past 128 bytes the same exchange does not complete: the second loop reaches
  \<open>count = 256\<close> and scans from \<^verbatim>\<open>&buffered_chars[512]\<close>, outside the array.
\<close>

lemma spi_transfer_echo_overread:
  fixes h :: "'a lt_handle_t_scheme"
  assumes guard: "unat offset + unat tx_data_length \<le> LT_L1_LEN_MAX"
    and l2: "unat offset + unat tx_data_length \<le> length (l2_buff h)"
    and large: "128 < unat tx_data_length" and small: "unat tx_data_length \<le> 255"
    and acc: "accepts p (2 * unat tx_data_length + 2)"
    and echo: "take (2 * unat tx_data_length + 2) (avail (rx p)) =
      tx_chars (l2_buff h) (unat offset) (unat tx_data_length)"
  shows "lt_port_spi_transfer LT_L1_LEN_MAX h offset tx_data_length timeout p =
    Inl (BufferedCharsRead 512)"
proof -
  have dec: "decode_loop
      (hex_chars (take (unat tx_data_length) (drop (unat offset) (l2_buff h))) @ [0x78, 0x0A] @
         replicate (510 - 2 * unat tx_data_length) 0)
      (unat offset) (2 * unat tx_data_length) 0 (l2_buff h) = Inl (BufferedCharsRead 512)"
    using decode_loop_overread [OF large small l2 refl, of 0] by simp
  from spi_transfer_echo_decode [OF guard l2 small acc echo, of timeout]
  show ?thesis unfolding dec by simp
qed

text \<open>
  The two hex digits that \<^verbatim>\<open>sprintf "%02X"\<close> writes for a byte are read back by
  \<^verbatim>\<open>sscanf "%2hhx"\<close> as that byte, whatever follows them. Up to 128 bytes the second loop,
  which runs to \<open>2 * tx_data_length\<close>, stays inside \<^verbatim>\<open>buffered_chars\<close>: if the device takes the
  characters sent (\<open>tx_chars\<close>: they are what the call puts on the wire) and delivers
  exactly these characters back, the call returns \<^verbatim>\<open>LT_OK\<close> and the handle is what it was
  before the call.
\<close>

lemma spi_transfer_echo_small:
  fixes h :: "'a lt_handle_t_scheme"
  assumes "unat offset + unat tx_data_length \<le> LT_L1_LEN_MAX"
    and "unat offset + unat tx_data_length \<le> length (l2_buff h)"
    and "unat tx_data_length \<le> 128"
    and "accepts p (2 * unat tx_data_length + 2)"
    and "take (2 * unat tx_data_length + 2) (avail (rx p)) =
      tx_chars (l2_buff h) (unat offset) (unat tx_data_length)"
  shows "(\<forall>b rest. sscanf_2hhx (take 2 (sprintf_02X b) @ rest) = Some (Converted b)) \<and>
    (\<exists>h' p'. lt_port_spi_transfer LT_L1_LEN_MAX h offset tx_data_length timeout p =
        Inr (LT_OK, h', p') \<and>
      take (unat tx_data_length) (drop (unat offset) (l2_buff h')) =
        take (unat tx_data_length) (drop (unat offset) (l2_buff h)) \<and>
      h' = h \<and>
      wire p' = wire p @ tx_chars (l2_buff h) (unat offset) (unat tx_data_length))"
proof -
  have "sscanf_2hhx (take 2 (sprintf_02X b) @ rest) = Some (Converted b)" for b rest
    using sscanf_hex_pair [of b rest] by (simp add: sprintf_02X_def)
  moreover from spi_transfer_echo_run [OF assms, of timeout]
  have "\<exists>h' p'. lt_port_spi_transfer LT_L1_LEN_MAX h offset tx_data_length timeout p =
        Inr (LT_OK, h', p') \<and>
      take (unat tx_data_length) (drop (unat offset) (l2_buff h')) =
        take (unat tx_data_length) (drop (unat offset) (l2_buff h)) \<and>
      h' = h \<and>
      wire p' = wire p @ tx_chars (l2_buff h) (unat offset) (unat tx_data_length)"
    by blast
  ultimately show ?thesis by blast
qed

lemma hex_chars_zeros: "hex_chars (replicate n 0) = replicate (2 * n) 0x30"
  by (induction n) (simp_all add: hex_chars_def hex_digit_def)

text \<open>
  Claim C8 (if the port echoes the characters sent, \<open>l2_buff[offset .. offset + tx_data_length)\<close>
  is after the call what it was before, for every in-bounds offset and length). The
  second loop of \<^verbatim>\<open>lt_port_spi_transfer\<close> runs \<open>count\<close> to \<open>2 * tx_data_length\<close>, twice the number
  of bytes that were sent, and scans from \<^verbatim>\<open>&buffered_chars[count * 2]\<close>. With
  \<^verbatim>\<open>LT_L1_LEN_MAX\<close> = 257, an L2 buffer of 257 zero bytes, \<open>offset = 0\<close> and
  \<open>tx_data_length = 129\<close> the guard passes, every write of the first loop is inside the 512
  bytes of \<^verbatim>\<open>buffered_chars\<close>, the device takes the 260 characters and delivers them back,
  and the iteration \<open>count = 256\<close> scans from \<^verbatim>\<open>&buffered_chars[512]\<close>, outside the array: the
  call has no defined result, and the slice is not given back.
\<close>

theorem spi_transfer_echo_reads_past_array:
  "unat (0 :: 8 word) + unat (129 :: 16 word) \<le> (257::nat) \<and>
   unat (0 :: 8 word) + unat (129 :: 16 word) \<le> length (l2_buff \<lparr>l2_buff = replicate 257 0\<rparr>) \<and>
   tx_chars (replicate 257 0) 0 129 = replicate 258 0x30 @ [0x78, 0x0A] \<and>
   lt_port_spi_transfer 257 \<lparr>l2_buff = replicate 257 0\<rparr> 0 129 0
       \<lparr>rx = [RdData (replicate 258 0x30 @ [0x78, 0x0A])], wx = [], wire = [], trace = []\<rparr> =
     Inl (BufferedCharsRead 512)"
proof -
  let ?h = "\<lparr>l2_buff = replicate 257 (0 :: byte)\<rparr>"
  let ?p = "\<lparr>rx = [RdData (replicate 258 0x30 @ [0x78, 0x0A])], wx = [], wire = [], trace = []\<rparr>"
  have n: "unat (129 :: 16 word) = 129" by simp
  have tx: "tx_chars (replicate 257 0) 0 129 = replicate 258 0x30 @ [0x78, 0x0A]"
    using hex_chars_zeros [of 129] by (simp add: tx_chars_def)
  have a1: "unat (0 :: 8 word) + unat (129 :: 16 word) \<le> (257::nat)" by simp
  have a2: "unat (0 :: 8 word) + unat (129 :: 16 word) \<le> length (l2_buff ?h)" by simp
  have a3: "128 < unat (129 :: 16 word)" by simp
  have a4: "unat (129 :: 16 word) \<le> 255" by simp
  have a5: "accepts ?p (2 * unat (129 :: 16 word) + 2)" by (simp add: accepts_def)
  have a6: "take (2 * unat (129 :: 16 word) + 2) (avail (rx ?p)) =
      tx_chars (l2_buff ?h) (unat (0 :: 8 word)) (unat (129 :: 16 word))"
    unfolding n using tx by simp
  from spi_transfer_echo_overread [OF a1 a2 a3 a4 a5 a6, of 0] a1 a2 tx show ?thesis by blast
qed

lemma decode_loop_faults:
  "decode_loop bc off n count l2 = Inl f \<Longrightarrow> (\<exists>i. f = BufferedCharsRead i) \<or> (\<exists>i. f = L2BuffWrite i)"
proof (induction bc off n count l2 rule: decode_loop.induct)
  case (1 bc off n count l2)
  show ?case
  proof (cases "count < n")
    case False
    with "1.prems" show ?thesis by (simp add: decode_loop.simps)
  next
    case True
    show ?thesis
    proof (cases "sscanf_2hhx (drop (count * 2) bc)")
      case None
      with True "1.prems" show ?thesis by (auto simp: decode_loop.simps)
    next
      case (Some sc)
      show ?thesis
      proof (cases sc)
        case (Converted b)
        show ?thesis
        proof (cases "count + off < length l2")
          case False
          with True Some Converted "1.prems" show ?thesis by (auto simp: decode_loop.simps)
        next
          case inb: True
          from True Some Converted inb "1.prems"
          have "decode_loop bc off n (count + 1) (l2[count + off := b]) = Inl f"
            by (simp add: decode_loop.simps [of bc off n count])
          from "1.IH"(1) [OF True Some Converted inb this] show ?thesis .
        qed
      next
        case MatchingFailure
        from True Some MatchingFailure "1.prems"
        have "decode_loop bc off n (count + 1) l2 = Inl f"
          by (simp add: decode_loop.simps [of bc off n count])
        from "1.IH"(2) [OF True Some _ this] MatchingFailure show ?thesis by simp
      next
        case InputFailure
        from True Some InputFailure "1.prems"
        have "decode_loop bc off n (count + 1) l2 = Inl f"
          by (simp add: decode_loop.simps [of bc off n count])
        from "1.IH"(3) [OF True Some _ this] InputFailure show ?thesis by simp
      qed
    qed
  qed
qed


lemma spi_transfer_overflow:
  fixes h :: "'a lt_handle_t_scheme"
  assumes "256 \<le> unat tx_data_length"
    and "unat offset + unat tx_data_length \<le> LT_L1_LEN_MAX"
    and "unat offset + 256 \<le> length (l2_buff h)"
  shows "lt_port_spi_transfer LT_L1_LEN_MAX h offset tx_data_length timeout p =
    Inl (BufferedCharsWrite 512)"
proof -
  have g: "\<not> LT_L1_LEN_MAX < unat offset + unat tx_data_length" using assms(2) by simp
  have enc: "encode_loop (l2_buff h) (unat offset) (unat tx_data_length) 0 (replicate 512 0) =
      Inl (BufferedCharsWrite 512)"
    using encode_loop_overflow [OF assms(1,3), of 0 "replicate 512 0"] by simp
  show ?thesis
    unfolding lt_port_spi_transfer_def by (simp only: g if_False enc sum.case)
qed

lemma spi_transfer_writes_in_bounds:
  fixes h :: "'a lt_handle_t_scheme"
  assumes "unat offset + unat tx_data_length \<le> LT_L1_LEN_MAX"
    and "unat offset + unat tx_data_length \<le> length (l2_buff h)"
    and "unat tx_data_length \<le> 255"
  shows "lt_port_spi_transfer LT_L1_LEN_MAX h offset tx_data_length timeout p \<noteq> Inl (BufferedCharsWrite i) \<and>
    lt_port_spi_transfer LT_L1_LEN_MAX h offset tx_data_length timeout p \<noteq> Inl (L2BuffRead i)"
proof -
  let ?off = "unat offset" and ?len = "unat tx_data_length"
  let ?bc1 = "hex_chars (take ?len (drop ?off (l2_buff h))) @ replicate (512 - 2 * ?len) 0"
  let ?bc2 = "store_at ?bc1 (?len * 2) [0x78]"
  let ?bc3 = "store_at ?bc2 (?len * 2 + 1) [0x0A]"
  have g: "\<not> LT_L1_LEN_MAX < ?off + ?len" using assms(1) by simp
  have enc: "encode_loop (l2_buff h) ?off ?len 0 (replicate 512 0) = Inr ?bc1"
    using encode_loop_ok [OF assms(3,2), of 0] by (simp add: hex_chars_def)
  have len1: "length ?bc1 = 512" using assms(2,3) by (simp add: length_hex_chars)
  have w1: "write_chars ?bc1 (?len * 2) [0x78] = Inr ?bc2"
    using assms(3) unfolding write_chars_def len1 by simp
  have len2: "length ?bc2 = 512" using assms(3) len1 by (simp add: length_store_at)
  have w2: "write_chars ?bc2 (?len * 2 + 1) [0x0A] = Inr ?bc3"
    using assms(3) unfolding write_chars_def len2 by simp
  obtain ret p1 where wp: "write_port p ?bc3 (?len * 2 + 2) = (ret, p1)" by fastforce
  obtain readed bc4 p2 where rp: "read_port p1 ?bc3 (2 * ?len + 2) = (readed, bc4, p2)"
    by (metis prod_cases3)
  have run: "lt_port_spi_transfer LT_L1_LEN_MAX h offset tx_data_length timeout p =
    (if ret \<noteq> 0 then Inr (LT_L1_SPI_ERROR, h, p1)
     else if readed \<noteq> int (2 * ?len + 2) then Inr (LT_L1_SPI_ERROR, h, p2)
     else (case decode_loop bc4 ?off (2 * ?len) 0 (l2_buff h) of
             Inl f \<Rightarrow> Inl f
           | Inr l2' \<Rightarrow> Inr (LT_OK, h\<lparr>l2_buff := l2'\<rparr>, p2)))"
    unfolding lt_port_spi_transfer_def
    by (simp only: g if_False enc sum.case w1 w2 wp prod.case rp)
  show ?thesis
    unfolding run using decode_loop_faults [of bc4 ?off "2 * ?len" 0 "l2_buff h"]
    by (auto split: sum.splits)
qed

text \<open>
  Claim C9 (under the guard \<open>offset + tx_data_length \<le> LT_L1_LEN_MAX\<close> every write into the
  512-byte \<^verbatim>\<open>buffered_chars\<close> stays in bounds). The guard does not ensure it: the writes are
  inside the array for \<open>tx_data_length \<le> 255\<close> (\<open>spi_transfer_writes_in_bounds\<close>, which
  covers the reads \<^verbatim>\<open>l2_buff[i+offset]\<close> too) and leave it for every larger length that the
  guard lets through (\<open>spi_transfer_overflow\<close>). With \<^verbatim>\<open>LT_L1_LEN_MAX\<close> = 257, an L2 buffer of
  257 bytes, \<open>offset = 0\<close> and \<open>tx_data_length = 256\<close> the guard passes and the \<^verbatim>\<open>sprintf\<close> of
  the iteration \<open>i = 255\<close> stores its terminating NUL at index 512.
\<close>

theorem spi_transfer_guard_overflow:
  "unat (0 :: 8 word) + unat (256 :: 16 word) \<le> (257::nat) \<and>
   lt_port_spi_transfer 257 \<lparr>l2_buff = replicate 257 0\<rparr> 0 256 0
       \<lparr>rx = [], wx = [], wire = [], trace = []\<rparr> =
     Inl (BufferedCharsWrite 512)"
proof -
  have a: "256 \<le> unat (256 :: 16 word)" by simp
  have b: "unat (0 :: 8 word) + unat (256 :: 16 word) \<le> (257::nat)" by simp
  have c: "unat (0 :: 8 word) + 256 \<le> length (l2_buff \<lparr>l2_buff = replicate 257 (0::byte)\<rparr>)" by simp
  from spi_transfer_overflow [OF a b c] b show ?thesis by blast
qed

section \<open>Properties of the secure session\<close>

lemma random_loop_done: "\<not> i < len \<Longrightarrow> random_loop rand len i buff s = (buff, s)"
  by (subst random_loop.simps) simp

lemma random_loop_step:
  "i < len \<Longrightarrow> random_loop rand len i buff s =
     (case rand s of (r, s') \<Rightarrow> random_loop rand len (i + 1) (buff[i := of_int r]) s')"
  by (subst random_loop.simps) simp

text \<open>
  Claim C3 (two successful handshakes on the same pairing slot derive different keys,
  each run having a fresh ephemeral key pair). Two runs whose randomness starts from the
  same state of the C library do not get fresh ephemeral keys: the words that
  \<^verbatim>\<open>lt_port_random_bytes\<close> delivers are a function of that state, so with the same replies
  from the other side both runs succeed with the same \<open>send_key\<close> and \<open>recv_key\<close>. The port
  never calls \<^verbatim>\<open>srand\<close>, so every process starts from the same state.
\<close>

theorem handshake_keys_repeat:
  assumes "start_secure_session P rand exchange h1 host_private_key host_public_key slot s = (Inr (), h1', s1)"
    and "start_secure_session P rand exchange h2 host_private_key host_public_key slot s = (Inr (), h2', s2)"
  shows "send_key h1' = send_key h2' \<and> recv_key h1' = recv_key h2' \<and>
    send_key h1' \<noteq> None \<and> recv_key h1' \<noteq> None \<and> s1 = s2"
  using assms
  by (auto simp: start_secure_session_def handshake_begin_def split: prod.splits sum.splits if_splits)

theorem handshake_keys_repeat_witness:
  "start_secure_session
     \<lparr>ephemeral_words = 2, ephemeral = (\<lambda>ws. (map (ucast :: 32 word \<Rightarrow> byte) ws, map (\<lambda>w. ucast w + 1) ws)),
      tag_ok = (\<lambda>slot hp ep cp tag. tag = [7]), derive = (\<lambda>slot hk ek ep cp. (ek @ cp, cp @ ek)),
      seal = (\<lambda>k n m. m), unseal = (\<lambda>k f. Some (0, f))\<rparr>
     (\<lambda>s :: nat. (int s, Suc s)) (\<lambda>req. Inr ([5], [7]))
     \<lparr>l2_buff = [], state = ChannelReady, send_key = None, recv_key = None,
      send_counter = (0 :: 32 word), recv_counter = 0, pairing_slot = None\<rparr> [] [] 0 0 =
   (Inr (),
    \<lparr>l2_buff = [], state = SecureActive, send_key = Some [0, 1, 5], recv_key = Some [5, 0, 1],
      send_counter = 0, recv_counter = 0, pairing_slot = Some 0\<rparr>, 2) \<and>
   start_secure_session
     \<lparr>ephemeral_words = 2, ephemeral = (\<lambda>ws. (map (ucast :: 32 word \<Rightarrow> byte) ws, map (\<lambda>w. ucast w + 1) ws)),
      tag_ok = (\<lambda>slot hp ep cp tag. tag = [7]), derive = (\<lambda>slot hk ek ep cp. (ek @ cp, cp @ ek)),
      seal = (\<lambda>k n m. m), unseal = (\<lambda>k f. Some (0, f))\<rparr>
     (\<lambda>s :: nat. (int s, Suc s)) (\<lambda>req. Inr ([5], [7]))
     \<lparr>l2_buff = [], state = Aborted, send_key = None, recv_key = None,
      send_counter = (4 :: 32 word), recv_counter = 4, pairing_slot = Some 0\<rparr> [] [] 0 0 =
   (Inr (),
    \<lparr>l2_buff = [], state = SecureActive, send_key = Some [0, 1, 5], recv_key = Some [5, 0, 1],
      send_counter = 0, recv_counter = 0, pairing_slot = Some 0\<rparr>, 2)"
proof -
  let ?P = "\<lparr>ephemeral_words = 2, ephemeral = (\<lambda>ws. (map (ucast :: 32 word \<Rightarrow> byte) ws, map (\<lambda>w. ucast w + 1) ws)),
      tag_ok = (\<lambda>slot hp ep cp tag. tag = [7]), derive = (\<lambda>slot hk ek ep cp. (ek @ cp, cp @ ek)),
      seal = (\<lambda>k n m. m), unseal = (\<lambda>k f. Some (0, f))\<rparr>"
  have rnd: "lt_port_random_bytes (\<lambda>s :: nat. (int s, Suc s)) (replicate 2 0) 2 0 = (LT_OK, [0, 1], 2)"
  proof -
    have n: "unat (2 :: 16 word) = 2" by simp
    have z: "replicate 2 (0 :: 32 word) = [0, 0]" by (simp add: numeral_2_eq_2)
    show ?thesis
      unfolding lt_port_random_bytes_def n z
      by (simp add: random_loop_step random_loop_done)
  qed
  have one: "start_secure_session ?P (\<lambda>s :: nat. (int s, Suc s)) (\<lambda>req. Inr ([5], [7]))
     \<lparr>l2_buff = [], state = ChannelReady, send_key = None, recv_key = None,
      send_counter = (0 :: 32 word), recv_counter = 0, pairing_slot = None\<rparr> [] [] 0 0 =
   (Inr (),
    \<lparr>l2_buff = [], state = SecureActive, send_key = Some [0, 1, 5], recv_key = Some [5, 0, 1],
      send_counter = 0, recv_counter = 0, pairing_slot = Some 0\<rparr>, 2)"
    by (simp add: start_secure_session_def handshake_begin_def rnd)
  have two: "start_secure_session ?P (\<lambda>s :: nat. (int s, Suc s)) (\<lambda>req. Inr ([5], [7]))
     \<lparr>l2_buff = [], state = Aborted, send_key = None, recv_key = None,
      send_counter = (4 :: 32 word), recv_counter = 4, pairing_slot = Some 0\<rparr> [] [] 0 0 =
   (Inr (),
    \<lparr>l2_buff = [], state = SecureActive, send_key = Some [0, 1, 5], recv_key = Some [5, 0, 1],
      send_counter = 0, recv_counter = 0, pairing_slot = Some 0\<rparr>, 2)"
    by (simp add: start_secure_session_def handshake_begin_def rnd)
  from handshake_keys_repeat [OF one two] one two show ?thesis by blast
qed
















text \<open>
  Claim C2. A handshake attempt that fails, whatever the error (one that the exchange
  reports: transport error, timeout, checksum failure; or the failed verification of the
  chip's tag), leaves the handle in \<open>ChannelReady\<close>, never in \<open>SecureActive\<close>, without
  \<open>send_key\<close> and \<open>recv_key\<close> and with no other session state kept.
\<close>

theorem handshake_failure_leaves_channel_ready:
  assumes "start_secure_session P rand exchange h host_private_key host_public_key slot s = (Inl e, h', s')"
  shows "state h' = ChannelReady \<and> state h' \<noteq> SecureActive \<and>
    send_key h' = None \<and> recv_key h' = None \<and>
    send_counter h' = 0 \<and> recv_counter h' = 0 \<and> pairing_slot h' = None \<and>
    l2_buff h' = l2_buff h"
  using assms
  by (auto simp: start_secure_session_def handshake_failed_def handshake_begin_def
      split: prod.splits sum.splits if_splits)

theorem handshake_failure_leaves_channel_ready_witness:
  "start_secure_session plain_primitives (\<lambda>s :: nat. (int s, Suc s)) (\<lambda>req. Inr ([5], [8]))
     \<lparr>l2_buff = [1, 2], state = SecureActive, send_key = Some [1], recv_key = Some [2],
      send_counter = 3, recv_counter = 5, pairing_slot = Some 1\<rparr> [] [] 0 0 =
   (Inl AuthenticationFailed,
    \<lparr>l2_buff = [1, 2], state = ChannelReady, send_key = None, recv_key = None,
      send_counter = 0, recv_counter = 0, pairing_slot = None\<rparr>, 2) \<and>
   start_secure_session plain_primitives (\<lambda>s :: nat. (int s, Suc s)) (\<lambda>req. Inl Timeout)
     \<lparr>l2_buff = [1, 2], state = SecureActive, send_key = Some [1], recv_key = Some [2],
      send_counter = 3, recv_counter = 5, pairing_slot = Some 1\<rparr> [] [] 0 0 =
   (Inl Timeout,
    \<lparr>l2_buff = [1, 2], state = ChannelReady, send_key = None, recv_key = None,
      send_counter = 0, recv_counter = 0, pairing_slot = None\<rparr>, 2) \<and>
   handshake_begin
     \<lparr>l2_buff = [1, 2], state = SecureActive, send_key = Some [1], recv_key = Some [2],
      send_counter = 3 :: 32 word, recv_counter = 5, pairing_slot = Some 1\<rparr> 0 =
     \<lparr>l2_buff = [1, 2], state = HandshakeInProgress, send_key = Some [1], recv_key = Some [2],
      send_counter = 3, recv_counter = 5, pairing_slot = Some 0\<rparr>"
proof -
  let ?h = "\<lparr>l2_buff = [1, 2], state = SecureActive, send_key = Some [1], recv_key = Some [2],
      send_counter = 3 :: 32 word, recv_counter = 5, pairing_slot = Some 1\<rparr>"
  let ?clean = "\<lparr>l2_buff = [1, 2], state = ChannelReady, send_key = None, recv_key = None,
      send_counter = 0 :: 32 word, recv_counter = 0, pairing_slot = None\<rparr>"
  have n: "unat (2 :: 16 word) = 2" by simp
  have z: "replicate 2 (0 :: 32 word) = [0, 0]" by (simp add: numeral_2_eq_2)
  have rnd: "lt_port_random_bytes (\<lambda>s :: nat. (int s, Suc s)) (replicate 2 0) 2 0 = (LT_OK, [0, 1], 2)"
    unfolding lt_port_random_bytes_def n z
    by (simp add: random_loop_step random_loop_done)
  have tag: "start_secure_session plain_primitives (\<lambda>s :: nat. (int s, Suc s)) (\<lambda>req. Inr ([5], [8]))
      ?h [] [] 0 0 = (Inl AuthenticationFailed, handshake_failed (handshake_begin ?h 0), 2)"
    by (simp add: start_secure_session_def plain_primitives_def rnd)
  have timeout: "start_secure_session plain_primitives (\<lambda>s :: nat. (int s, Suc s)) (\<lambda>req. Inl Timeout)
      ?h [] [] 0 0 = (Inl Timeout, handshake_failed (handshake_begin ?h 0), 2)"
    by (simp add: start_secure_session_def plain_primitives_def rnd)
  have "handshake_failed (handshake_begin ?h 0) = ?clean"
    using handshake_failure_leaves_channel_ready [OF tag]
      handshake_failure_leaves_channel_ready [OF timeout]
    by (cases "handshake_failed (handshake_begin ?h 0)") simp
  with tag timeout show ?thesis by (simp add: handshake_begin_def)
qed

text \<open>
  Claim C6. \<open>abort\<close> succeeds in every state of the handle. It leaves no keys and both
  counters at zero; from \<open>SecureActive\<close> and \<open>HandshakeInProgress\<close> the state becomes
  \<open>ChannelReady\<close>; in \<open>Uninitialized\<close> and \<open>ChannelReady\<close> the state stays; a handle outside a
  session that holds no keys and has its counters at zero is left as it is; and aborting
  twice gives the handle that aborting once gives.
\<close>

theorem session_abort_contract:
  "fst (lt_session_abort h) = LT_OK \<and>
   send_key (snd (lt_session_abort h)) = None \<and> recv_key (snd (lt_session_abort h)) = None \<and>
   send_counter (snd (lt_session_abort h)) = 0 \<and> recv_counter (snd (lt_session_abort h)) = 0 \<and>
   (state h = SecureActive \<or> state h = HandshakeInProgress \<longrightarrow>
      state (snd (lt_session_abort h)) = ChannelReady) \<and>
   (state h = Uninitialized \<or> state h = ChannelReady \<longrightarrow>
      state (snd (lt_session_abort h)) = state h) \<and>
   (state h \<noteq> SecureActive \<and> state h \<noteq> HandshakeInProgress \<and>
    send_key h = None \<and> recv_key h = None \<and> send_counter h = 0 \<and> recv_counter h = 0 \<longrightarrow>
      snd (lt_session_abort h) = h) \<and>
   lt_session_abort (snd (lt_session_abort h)) = lt_session_abort h"
  by (auto simp: lt_session_abort_def)

theorem session_abort_contract_witness:
  "state \<lparr>l2_buff = [], state = SecureActive, send_key = Some [1], recv_key = Some [2],
      send_counter = (3 :: 32 word), recv_counter = 3, pairing_slot = Some 0\<rparr> = SecureActive \<and>
   lt_session_abort \<lparr>l2_buff = [], state = SecureActive, send_key = Some [1], recv_key = Some [2],
      send_counter = 3, recv_counter = 3, pairing_slot = Some 0\<rparr> =
     (LT_OK, \<lparr>l2_buff = [], state = ChannelReady, send_key = None, recv_key = None,
      send_counter = 0, recv_counter = 0, pairing_slot = Some 0\<rparr>) \<and>
   state (snd (lt_session_abort \<lparr>l2_buff = [], state = SecureActive, send_key = Some [1], recv_key = Some [2],
      send_counter = 3, recv_counter = 3, pairing_slot = Some 0\<rparr>)) = ChannelReady \<and>
   lt_session_abort \<lparr>l2_buff = [], state = ChannelReady, send_key = None, recv_key = None,
      send_counter = 0, recv_counter = 0, pairing_slot = Some 0\<rparr> =
     (LT_OK, \<lparr>l2_buff = [], state = ChannelReady, send_key = None, recv_key = None,
      send_counter = 0, recv_counter = 0, pairing_slot = Some 0\<rparr>)"
  using session_abort_contract [of "\<lparr>l2_buff = [], state = SecureActive, send_key = Some [1],
      recv_key = Some [2], send_counter = 3, recv_counter = 3, pairing_slot = Some 0\<rparr>"]
  by (simp add: lt_session_abort_def)

end
